theory Spec2Isabelle
  imports Main "HOL-Library.Sublist"
begin

section \<open>Text model\<close>

text \<open>
  A Python \<open>str\<close> is modelled as a \<open>string\<close> whose characters are read as the
  code points U+0000 to U+00FF, one character per code point.  The character classes of
  the Python runtime (\<open>str.isspace\<close>, \<open>str.isalnum\<close>, the line boundaries of
  \<open>str.splitlines\<close>) are given on that range.  Counts are natural numbers.
\<close>

definition FILE_SEPARATOR :: string where
  "FILE_SEPARATOR = ''/''"

definition CODE_FENCE_MARKER :: string where
  "CODE_FENCE_MARKER = [CHR 0x60, CHR 0x60, CHR 0x60]"

definition GATORGRADER_REPLACEMENT :: string where
  "GATORGRADER_REPLACEMENT = ''GATORGRADER_REPLACEMENT''"

definition SECTION_MARKER :: string where
  "SECTION_MARKER = ''#''"

definition NEWLINE :: string where
  "NEWLINE = ''\<newline>''"

definition NOTHING :: string where
  "NOTHING = []"

definition SPACE :: string where
  "SPACE = '' ''"

definition DOUBLE_NEWLINE :: string where
  "DOUBLE_NEWLINE = NEWLINE @ NEWLINE"

subsection \<open>Character classes of the runtime\<close>

text \<open>\<open>ch.isspace()\<close> below U+0100: TAB to CR, FS to US, SPACE, NEL and NBSP.\<close>

definition py_isspace_char :: "char \<Rightarrow> bool" where
  "py_isspace_char c =
     (let n = (of_char c :: nat)
      in (9 \<le> n \<and> n \<le> 13) \<or> (28 \<le> n \<and> n \<le> 32) \<or> n = 133 \<or> n = 160)"

text \<open>
  \<open>ch.isalnum()\<close> below U+0100: the ASCII digits and letters, the Latin-1 letters
  (without the multiplication and division signs), the ordinal indicators, the micro sign,
  the superscript digits and the vulgar fractions.
\<close>

definition py_isalnum_char :: "char \<Rightarrow> bool" where
  "py_isalnum_char c =
     (let n = (of_char c :: nat)
      in (48 \<le> n \<and> n \<le> 57) \<or> (65 \<le> n \<and> n \<le> 90) \<or> (97 \<le> n \<and> n \<le> 122)
         \<or> n = 170 \<or> n = 178 \<or> n = 179 \<or> n = 181 \<or> n = 185 \<or> n = 186
         \<or> (188 \<le> n \<and> n \<le> 190) \<or> (192 \<le> n \<and> n \<le> 214)
         \<or> (216 \<le> n \<and> n \<le> 246) \<or> (248 \<le> n \<and> n \<le> 255))"

text \<open>The line boundaries of \<open>str.splitlines\<close> below U+0100: LF, VT, FF, CR, FS, GS, RS, NEL.\<close>

definition py_is_linebreak :: "char \<Rightarrow> bool" where
  "py_is_linebreak c =
     (let n = (of_char c :: nat)
      in (10 \<le> n \<and> n \<le> 13) \<or> (28 \<le> n \<and> n \<le> 30) \<or> n = 133)"

subsection \<open>String methods\<close>

text \<open>\<open>s.startswith(p)\<close>.\<close>

definition py_startswith :: "string \<Rightarrow> string \<Rightarrow> bool" where
  "py_startswith s p = prefix p s"

text \<open>\<open>s.strip()\<close>: whitespace removed at both ends.\<close>

definition py_strip :: "string \<Rightarrow> string" where
  "py_strip s = rev (dropWhile py_isspace_char (rev (dropWhile py_isspace_char s)))"

text \<open>\<open>s.isspace()\<close>: at least one character, and all of them whitespace.\<close>

definition py_isspace :: "string \<Rightarrow> bool" where
  "py_isspace s = (s \<noteq> [] \<and> list_all py_isspace_char s)"

text \<open>
  \<open>s.replace(old, new)\<close>: the occurrences of \<open>old\<close> are replaced from left to right,
  the scan resuming after each replaced occurrence.  With an empty \<open>old\<close>, \<open>new\<close> is
  inserted before every character and at the end.
\<close>

function py_replace :: "string \<Rightarrow> string \<Rightarrow> string \<Rightarrow> string" where
  "py_replace old new [] = (if old = [] then new else [])"
| "py_replace old new (c # cs) =
     (if old = [] then new @ c # py_replace old new cs
      else if prefix old (c # cs)
        then new @ py_replace old new (drop (length old) (c # cs))
        else c # py_replace old new cs)"
  by pat_completeness auto
termination
  by (relation "measure (\<lambda>(old, new, s). length s)") auto

text \<open>
  \<open>s.count(sub)\<close>: occurrences counted from left to right, the scan resuming after each
  counted occurrence; the empty \<open>sub\<close> is counted once before every character and once at
  the end.
\<close>

function py_count :: "string \<Rightarrow> string \<Rightarrow> nat" where
  "py_count [] sub = (if sub = [] then 1 else 0)"
| "py_count (c # cs) sub =
     (if sub = [] then Suc (py_count cs sub)
      else if prefix sub (c # cs)
        then Suc (py_count (drop (length sub) (c # cs)) sub)
        else py_count cs sub)"
  by pat_completeness auto
termination
  by (relation "measure (\<lambda>(s, sub). length s)") auto

text \<open>
  \<open>s.split()\<close> with no separator: skip whitespace, take the characters up to the next
  whitespace as one token, repeat; no empty token is produced.
\<close>

function py_split :: "string \<Rightarrow> string list" where
  "py_split s =
     (case dropWhile py_isspace_char s of
        [] \<Rightarrow> []
      | c # cs \<Rightarrow>
          (c # takeWhile (\<lambda>x. \<not> py_isspace_char x) cs)
            # py_split (dropWhile (\<lambda>x. \<not> py_isspace_char x) cs))"
  by pat_completeness auto
termination
proof (relation "measure length")
  show "wf (measure length)" by simp
next
  fix s :: string and c cs
  assume eq: "dropWhile py_isspace_char s = c # cs"
  have "length (dropWhile (\<lambda>x. \<not> py_isspace_char x) cs) \<le> length cs"
    by (rule length_dropWhile_le)
  moreover have "length (c # cs) \<le> length s"
    using length_dropWhile_le [of py_isspace_char s] eq by simp
  ultimately show "(dropWhile (\<lambda>x. \<not> py_isspace_char x) cs, s) \<in> measure length"
    by simp
qed

text \<open>
  \<open>s.splitlines(keepends=False)\<close>: a line runs up to the next line boundary; CR LF is one
  boundary; a boundary at the very end opens no further line.
\<close>

function py_splitlines :: "string \<Rightarrow> string list" where
  "py_splitlines [] = []"
| "py_splitlines (c # cs) =
     (let line = takeWhile (\<lambda>x. \<not> py_is_linebreak x) (c # cs);
          rest = dropWhile (\<lambda>x. \<not> py_is_linebreak x) (c # cs)
      in line #
         (case rest of
            [] \<Rightarrow> []
          | b # more \<Rightarrow>
              (if b = CHR 0x0D \<and> prefix ''\<newline>'' more
               then py_splitlines (tl more)
               else py_splitlines more)))"
  by pat_completeness auto
termination
proof (relation "measure length")
  show "wf (measure length)" by simp
next
  fix c :: char and cs line rest b more
  assume "rest = dropWhile (\<lambda>x. \<not> py_is_linebreak x) (c # cs)" and "rest = b # more"
  then have "length (b # more) \<le> length (c # cs)"
    using length_dropWhile_le [of "\<lambda>x. \<not> py_is_linebreak x" "c # cs"] by simp
  then show "(tl more, c # cs) \<in> measure length"
    by (cases more) simp_all
next
  fix c :: char and cs line rest b more
  assume "rest = dropWhile (\<lambda>x. \<not> py_is_linebreak x) (c # cs)" and "rest = b # more"
  then have "length (b # more) \<le> length (c # cs)"
    using length_dropWhile_le [of "\<lambda>x. \<not> py_is_linebreak x" "c # cs"] by simp
  then show "(more, c # cs) \<in> measure length"
    by simp
qed

section \<open>Regular expressions\<close>

text \<open>
  The fragment of Python's \<open>re\<close> syntax that \<open>PARAGRAH_RE\<close> uses: \<open>.\<close> (any character
  but LF, no flag being set), a literal character, concatenation, alternation, the lazy
  repetition \<open>+?\<close> and the anchor \<open>$\<close> (at the end of the text, or before a LF that ends
  the text).
\<close>

datatype regex =
    Dot
  | Lit char
  | Seq regex regex
  | Alt regex regex
  | PlusLazy regex
  | Dollar

text \<open>
  The backtracking matcher: \<open>re_match r s\<close> lists the texts left after each way \<open>r\<close> can
  match at the start of \<open>s\<close>, in the order the engine tries them (the left alternative
  first, fewer repetitions of a lazy quantifier first).  The engine takes the head.
  A repetition whose body consumed nothing is not repeated again.
\<close>

function re_match :: "regex \<Rightarrow> string \<Rightarrow> string list" where
  "re_match Dot s = (case s of [] \<Rightarrow> [] | c # cs \<Rightarrow> if c = CHR 0x0A then [] else [cs])"
| "re_match (Lit a) s = (case s of [] \<Rightarrow> [] | c # cs \<Rightarrow> if c = a then [cs] else [])"
| "re_match (Seq r1 r2) s = concat (map (re_match r2) (re_match r1 s))"
| "re_match (Alt r1 r2) s = re_match r1 s @ re_match r2 s"
| "re_match (PlusLazy r) s =
     concat (map (\<lambda>s'. if length s' < length s then s' # re_match (PlusLazy r) s' else [s'])
                 (re_match r s))"
| "re_match Dollar s = (if s = [] \<or> s = ''\<newline>'' then [s] else [])"
  by pat_completeness auto
termination
  by (relation "measures [\<lambda>(r, s). size r, \<lambda>(r, s). length s]") auto

text \<open>
  \<open>pattern.findall(s)\<close> for a pattern whose only group is the whole pattern: the scan
  looks for a match at each position from the left, emits the matched text and resumes
  where the match ended; an empty match is emitted and the scan moves on by one character.
  \<open>PARAGRAH_RE\<close> has no empty match: both alternatives start with \<open>.+?\<close>.
\<close>

function re_findall :: "regex \<Rightarrow> string \<Rightarrow> string list" where
  "re_findall r [] = (case re_match r [] of [] \<Rightarrow> [] | rest # _ \<Rightarrow> [[]])"
| "re_findall r (c # cs) =
     (case re_match r (c # cs) of
        [] \<Rightarrow> re_findall r cs
      | rest # _ \<Rightarrow>
          (if length rest < length (c # cs)
           then take (length (c # cs) - length rest) (c # cs) # re_findall r rest
           else [] # re_findall r cs))"
  by pat_completeness auto
termination
  by (relation "measure (\<lambda>(r, s). length s)") auto

text \<open>\<open>PARAGRAH_RE = r"(.+?\n\n|.+?$)"\<close>\<close>

definition PARAGRAH_RE :: regex where
  "PARAGRAH_RE =
     Alt (Seq (PlusLazy Dot) (Seq (Lit CHR 0x0A) (Lit CHR 0x0A)))
         (Seq (PlusLazy Dot) Dollar)"

section \<open>The functions of \<open>gator/fragments.py\<close>\<close>

datatype py_error = ValueError | OSError | UnicodeDecodeError

text \<open>\<open>min(xs)\<close> raises \<open>ValueError\<close> on an empty list.\<close>

fun py_min :: "nat list \<Rightarrow> py_error + nat" where
  "py_min [] = Inl ValueError"
| "py_min (x # xs) = Inr (fold min xs x)"

definition is_paragraph :: "string \<Rightarrow> bool" where
  "is_paragraph candidate =
     (let candidate = py_strip candidate
      in if py_startswith candidate SECTION_MARKER then False
         else if py_startswith candidate CODE_FENCE_MARKER then False
         else True)"

definition get_paragraphs :: "string \<Rightarrow> bool \<Rightarrow> string list" where
  "get_paragraphs contents blank_replace =
     (let contents = (if blank_replace then py_replace SPACE NOTHING contents else contents);
          contents = py_replace DOUBLE_NEWLINE GATORGRADER_REPLACEMENT contents;
          contents = py_replace NEWLINE SPACE contents;
          contents = py_replace GATORGRADER_REPLACEMENT DOUBLE_NEWLINE contents;
          paragraphs = re_findall PARAGRAH_RE contents
      in filter is_paragraph paragraphs)"

text \<open>
  \<open>line is not NOTHING\<close> compares identities; the runtime keeps a single empty string,
  so for a line produced by \<open>splitlines\<close> it is the test \<open>line \<noteq> ""\<close>.  A line is never
  \<open>None\<close>.
\<close>

definition is_blank_line :: "string \<Rightarrow> bool" where
  "is_blank_line line = (if line \<noteq> NOTHING \<and> \<not> py_isspace line then False else True)"

text \<open>
  The content is a \<open>str\<close>, which has no \<open>decode\<close>: the \<open>AttributeError\<close> is caught and
  the line is used as it is.
\<close>

definition get_line_list :: "string \<Rightarrow> string list" where
  "get_line_list content = filter (\<lambda>line. \<not> is_blank_line line) (py_splitlines content)"

definition count_paragraphs :: "string \<Rightarrow> nat" where
  "count_paragraphs contents = length (get_paragraphs contents True)"

text \<open>The body of the loop of \<open>count_words\<close>: the number of words of one paragraph.\<close>

definition para_word_count :: "string \<Rightarrow> nat" where
  "para_word_count para =
     (let para = py_replace NEWLINE SPACE para;
          words = py_split (map (\<lambda>ch. if py_isalnum_char ch then ch else CHR '' '') para)
      in length words)"

definition count_words :: "string \<Rightarrow> py_error + nat" where
  "count_words contents =
     (let paragraphs = get_paragraphs contents False;
          word_counts = map para_word_count paragraphs
      in if word_counts \<noteq> [] then py_min word_counts else Inr 0)"

definition count_specified_fragment :: "string \<Rightarrow> string \<Rightarrow> nat" where
  "count_specified_fragment contents fragment = py_count contents fragment"

text \<open>
  The file system as the two calls see it, by the string
  \<open>containing_directory + "/" + given_file\<close>.  \<open>is_file()\<close> can itself raise: an
  \<open>OSError\<close> other than the few that say "no such file" (a name that is too long, a
  directory that may not be searched) is not caught by it.  Such a path is \<open>Unreachable\<close>;
  a path where \<open>is_file()\<close> is false is \<open>Absent\<close>; a regular file is \<open>Regular\<close>, with what
  \<open>read_text()\<close> does there, the text or the error raised.
\<close>

datatype path_state = Unreachable py_error | Absent | Regular "py_error + string"

type_synonym filesystem = "string \<Rightarrow> path_state"

definition is_file :: "filesystem \<Rightarrow> string \<Rightarrow> py_error + bool" where
  "is_file fs path =
     (case fs path of
        Unreachable e \<Rightarrow> Inl e
      | Absent \<Rightarrow> Inr False
      | Regular r \<Rightarrow> Inr True)"

definition read_text :: "filesystem \<Rightarrow> string \<Rightarrow> py_error + string" where
  "read_text fs path =
     (case fs path of
        Unreachable e \<Rightarrow> Inl e
      | Absent \<Rightarrow> Inl OSError
      | Regular r \<Rightarrow> r)"

text \<open>
  \<open>is_file()\<close> is the first operand of the first test, so it is called in every call and
  an error it raises leaves the function at once.  The file system does not change during
  the call: the second \<open>is_file()\<close> gives what the first gave.
  \<open>contents is NOTHING\<close> is the test for the empty string, as above.
\<close>

definition count_fragments ::
  "filesystem \<Rightarrow> string \<Rightarrow> (string \<Rightarrow> string \<Rightarrow> nat) \<Rightarrow> string \<Rightarrow> string \<Rightarrow> string
     \<Rightarrow> py_error + nat" where
  "count_fragments fs chosen_fragment checking_function given_file containing_directory contents =
     (let file_for_checking = containing_directory @ FILE_SEPARATOR @ given_file
      in case is_file fs file_for_checking of
           Inl e \<Rightarrow> Inl e
         | Inr present \<Rightarrow>
             if \<not> present \<and> contents \<noteq> NOTHING
               then Inr (checking_function contents chosen_fragment)
             else if present \<and> contents = NOTHING
               then (case read_text fs file_for_checking of
                       Inl e \<Rightarrow> Inl e
                     | Inr file_contents \<Rightarrow>
                         Inr (checking_function file_contents chosen_fragment))
             else Inr 0)"

definition count_lines :: "filesystem \<Rightarrow> string \<Rightarrow> string \<Rightarrow> string \<Rightarrow> py_error + nat" where
  "count_lines fs given_file containing_directory contents =
     (let file_for_checking = containing_directory @ FILE_SEPARATOR @ given_file
      in case is_file fs file_for_checking of
           Inl e \<Rightarrow> Inl e
         | Inr present \<Rightarrow>
             if \<not> present \<and> contents \<noteq> NOTHING
               then Inr (length (get_line_list contents))
             else if present \<and> contents = NOTHING
               then (case read_text fs file_for_checking of
                       Inl e \<Rightarrow> Inl e
                     | Inr file_contents \<Rightarrow> Inr (length (get_line_list file_contents)))
             else Inr 0)"

section \<open>Notions of the specification\<close>

text \<open>
  File systems for concrete calls: one with no file at all, one with a single regular
  file, one with a single path in a given state.
\<close>

definition no_files :: filesystem where
  "no_files = (\<lambda>path. Absent)"

definition single_file :: "string \<Rightarrow> py_error + string \<Rightarrow> filesystem" where
  "single_file name result = (\<lambda>path. if path = name then Regular result else Absent)"

definition single_path :: "string \<Rightarrow> path_state \<Rightarrow> filesystem" where
  "single_path name state = (\<lambda>path. if path = name then state else Absent)"

text \<open>
  The tokens of a paragraph, in the words of the specification: newlines and every
  character that is not alphanumeric become spaces, and the result is split at runs of
  whitespace.
\<close>

definition spec_tokens :: "string \<Rightarrow> string list" where
  "spec_tokens para =
     py_split (map (\<lambda>ch. if ch = CHR 0x0A \<or> \<not> py_isalnum_char ch then CHR '' '' else ch) para)"

text \<open>
  The newline normalisation, in the words of the specification: scanning from the left,
  every double newline is kept and every remaining single newline becomes a space.
\<close>

fun join_single_newlines :: "string \<Rightarrow> string" where
  "join_single_newlines [] = []"
| "join_single_newlines [c] = (if c = CHR 0x0A then '' '' else [c])"
| "join_single_newlines (c # d # cs) =
     (if c = CHR 0x0A \<and> d = CHR 0x0A then CHR 0x0A # CHR 0x0A # join_single_newlines cs
      else if c = CHR 0x0A then CHR '' '' # join_single_newlines (d # cs)
      else c # join_single_newlines (d # cs))"







text \<open>
  Non-overlapping occurrences, in the words of the specification: a fragment occurs at a
  position when the content holds it there; a list of positions is a family of
  non-overlapping occurrences when the fragment occurs at each of them and each position
  lies after the previous one and after the end of the previous occurrence.
\<close>

definition occurs_at :: "string \<Rightarrow> string \<Rightarrow> nat \<Rightarrow> bool" where
  "occurs_at fragment contents p =
     (p + length fragment \<le> length contents
      \<and> take (length fragment) (drop p contents) = fragment)"

definition nonoverlapping_occurrences :: "string \<Rightarrow> string \<Rightarrow> nat list \<Rightarrow> bool" where
  "nonoverlapping_occurrences fragment contents ps =
     (list_all (occurs_at fragment contents) ps
      \<and> sorted_wrt (\<lambda>p q. p < q \<and> p + length fragment \<le> q) ps)"

section \<open>Selection of the text source\<close>

lemmas source_defs =
  count_lines_def count_fragments_def is_file_def read_text_def Let_def

text \<open>
  C10, as stated, fails: with a file name of 256 characters no such file exists, and with
  the empty contents neither branch applies, yet \<open>is_file()\<close> raises \<open>OSError\<close> (file name too
  long) and so do \<open>count_lines\<close> and \<open>count_fragments\<close>, instead of returning 0.
\<close>

theorem unreachable_path_raises:
  "count_lines (single_path (''writing/'' @ replicate 256 CHR ''a'') (Unreachable OSError))
       (replicate 256 CHR ''a'') ''writing'' [] = Inl OSError
   \<and> count_lines (single_path (''writing/'' @ replicate 256 CHR ''a'') (Unreachable OSError))
       (replicate 256 CHR ''a'') ''writing'' [] \<noteq> Inr 0
   \<and> count_fragments (single_path (''writing/'' @ replicate 256 CHR ''a'') (Unreachable OSError))
       ''def'' count_specified_fragment (replicate 256 CHR ''a'') ''writing'' [] = Inl OSError
   \<and> count_fragments (single_path (''writing/'' @ replicate 256 CHR ''a'') (Unreachable OSError))
       ''def'' count_specified_fragment (replicate 256 CHR ''a'') ''writing'' [] \<noteq> Inr 0"
  by (simp add: source_defs single_path_def FILE_SEPARATOR_def)

text \<open>
  C10, amended: \<open>count_lines\<close> and \<open>count_fragments\<close> return 0, raising nothing, in every
  call where \<open>is_file()\<close> returns and neither branch of the selection applies: it returns
  false and the contents are empty, or it returns true and non-empty contents are supplied
  as well.
\<close>

theorem neither_branch_counts_zero:
  assumes "(is_file fs (containing_directory @ FILE_SEPARATOR @ given_file) = Inr False
              \<and> contents = NOTHING)
         \<or> (is_file fs (containing_directory @ FILE_SEPARATOR @ given_file) = Inr True
              \<and> contents \<noteq> NOTHING)"
  shows "count_lines fs given_file containing_directory contents = Inr 0
       \<and> count_fragments fs chosen_fragment checking_function given_file containing_directory
            contents = Inr 0"
  using assms by (auto simp: count_lines_def count_fragments_def Let_def)

theorem neither_branch_counts_zero_witness:
  "count_lines no_files ''essay.md'' ''writing'' [] = Inr 0
   \<and> count_fragments no_files ''def'' count_specified_fragment ''essay.md'' ''writing'' [] = Inr 0
   \<and> count_lines (single_file ''writing/essay.md'' (Inr ''one\<newline>two''))
         ''essay.md'' ''writing'' ''three'' = Inr 0
   \<and> count_fragments (single_file ''writing/essay.md'' (Inr ''one\<newline>two''))
         ''o'' count_specified_fragment ''essay.md'' ''writing'' ''three'' = Inr 0"
  using neither_branch_counts_zero [of no_files "''writing''" "''essay.md''" "[]" "''def''"
          count_specified_fragment]
        neither_branch_counts_zero [of "single_file ''writing/essay.md'' (Inr ''one\<newline>two'')"
          "''writing''" "''essay.md''" "''three''" "''o''" count_specified_fragment]
  by (simp add: NOTHING_def FILE_SEPARATOR_def no_files_def single_file_def is_file_def)

text \<open>
  C2, as stated, fails: with the file \<open>writing/essay.md\<close> holding two lines (and two
  occurrences of \<open>o\<close>) and the literal contents \<open>three\<close> supplied as well, neither
  function returns the count of the file's text.
\<close>

theorem both_sources_file_not_favored:
  "count_lines (single_file ''writing/essay.md'' (Inr ''one\<newline>two''))
       ''essay.md'' ''writing'' ''three''
     \<noteq> Inr (length (get_line_list ''one\<newline>two''))
   \<and> count_fragments (single_file ''writing/essay.md'' (Inr ''one\<newline>two''))
       ''o'' count_specified_fragment ''essay.md'' ''writing'' ''three''
     \<noteq> Inr (count_specified_fragment ''one\<newline>two'' ''o'')"
  by (simp add: source_defs FILE_SEPARATOR_def NOTHING_def
      single_file_def get_line_list_def is_blank_line_def py_is_linebreak_def py_isspace_def
      py_isspace_char_def count_specified_fragment_def)

text \<open>
  C2, amended: when the file exists and non-empty literal contents are supplied as well,
  \<open>count_fragments\<close> and \<open>count_lines\<close> use neither source and return 0.
\<close>

theorem both_sources_count_zero:
  assumes "fs (containing_directory @ FILE_SEPARATOR @ given_file) = Regular file_result"
      and "contents \<noteq> NOTHING"
  shows "count_lines fs given_file containing_directory contents = Inr 0
       \<and> count_fragments fs chosen_fragment checking_function given_file containing_directory
            contents = Inr 0"
  using assms by (simp add: source_defs)

theorem both_sources_count_zero_witness:
  "count_lines (single_file ''writing/essay.md'' (Inr ''one\<newline>two''))
       ''essay.md'' ''writing'' ''three'' = Inr 0
   \<and> count_fragments (single_file ''writing/essay.md'' (Inr ''one\<newline>two''))
       ''o'' count_specified_fragment ''essay.md'' ''writing'' ''three'' = Inr 0"
  using both_sources_count_zero [of "single_file ''writing/essay.md'' (Inr ''one\<newline>two'')"
          "''writing''" "''essay.md''" "Inr ''one\<newline>two''" "''three''" "''o''"
          count_specified_fragment]
  by (simp add: NOTHING_def FILE_SEPARATOR_def single_file_def)

section \<open>The paragraph classifier\<close>

lemma startswith_hashes:
  "(\<exists>n. 0 < n \<and> py_startswith s (replicate n CHR ''#'')) = py_startswith s SECTION_MARKER"
proof
  assume "\<exists>n. 0 < n \<and> py_startswith s (replicate n CHR ''#'')"
  then obtain n where n: "0 < n" and p: "prefix (replicate n CHR ''#'') s"
    by (auto simp: py_startswith_def)
  from n obtain m where "n = Suc m" by (cases n) auto
  with p have "prefix (CHR ''#'' # replicate m CHR ''#'') s" by simp
  then show "py_startswith s SECTION_MARKER"
    by (cases s) (auto simp: py_startswith_def SECTION_MARKER_def)
next
  assume "py_startswith s SECTION_MARKER"
  then have "0 < (1::nat) \<and> py_startswith s (replicate 1 CHR ''#'')"
    by (simp add: SECTION_MARKER_def)
  then show "\<exists>n. 0 < n \<and> py_startswith s (replicate n CHR ''#'')" by blast
qed

text \<open>
  C5: \<open>is_paragraph\<close> is false exactly when the candidate, stripped of surrounding
  whitespace, starts with one or more \<open>#\<close> or with three backticks; it is true for every
  other candidate.
\<close>

theorem is_paragraph_false_iff_marker:
  "(is_paragraph candidate = False) =
     ((\<exists>n. 0 < n \<and> py_startswith (py_strip candidate) (replicate n CHR ''#''))
      \<or> py_startswith (py_strip candidate) [CHR 0x60, CHR 0x60, CHR 0x60])"
  unfolding startswith_hashes by (simp add: is_paragraph_def Let_def CODE_FENCE_MARKER_def)

section \<open>Counting paragraphs and words\<close>

lemmas eval_defs =
  get_paragraphs_def PARAGRAH_RE_def NEWLINE_def DOUBLE_NEWLINE_def SPACE_def
  GATORGRADER_REPLACEMENT_def NOTHING_def is_paragraph_def py_strip_def py_startswith_def
  py_isspace_char_def SECTION_MARKER_def CODE_FENCE_MARKER_def

lemma replace_newline_by_space:
  "py_replace NEWLINE SPACE s = map (\<lambda>c. if c = CHR 0x0A then CHR '' '' else c) s"
  by (induction s) (auto simp: NEWLINE_def SPACE_def)

lemma para_word_count_tokens: "para_word_count para = length (spec_tokens para)"
proof -
  have "map (\<lambda>ch. if py_isalnum_char ch then ch else CHR '' '')
          (map (\<lambda>c. if c = CHR 0x0A then CHR '' '' else c) para)
        = map (\<lambda>ch. if ch = CHR 0x0A \<or> \<not> py_isalnum_char ch then CHR '' '' else ch) para"
    by (auto simp: py_isalnum_char_def)
  then show ?thesis
    unfolding para_word_count_def spec_tokens_def replace_newline_by_space Let_def
    by (rule arg_cong)
qed

lemma hello_paragraphs:
  "get_paragraphs ''Hello world.\<newline>\<newline>One two three four.'' False
     = [''Hello world.\<newline>\<newline>'', ''One two three four.'']"
  by (simp add: eval_defs)

lemma count_words_min:
  "count_words contents =
     Inr (if get_paragraphs contents False = [] then 0
          else Min (set (map (\<lambda>para. length (spec_tokens para)) (get_paragraphs contents False))))"
proof (cases "get_paragraphs contents False")
  case Nil
  then show ?thesis by (simp add: count_words_def)
next
  case (Cons p ps)
  have "Min (set (map (\<lambda>para. length (spec_tokens para)) (p # ps)))
        = fold min (map para_word_count ps) (para_word_count p)"
    unfolding para_word_count_tokens [abs_def] list.map by (rule Min.set_eq_fold)
  with Cons show ?thesis
    by (simp add: count_words_def del: py_split.simps)
qed

text \<open>
  C3: \<open>count_words\<close> returns the least number of tokens over the surviving paragraphs,
  and 0 when no paragraph survives; for \<open>Hello world.\<close>, an empty line and
  \<open>One two three four.\<close> it returns 2, while the paragraphs hold 6 tokens in total.
\<close>

theorem count_words_is_paragraph_minimum:
  "count_words contents =
     Inr (if get_paragraphs contents False = [] then 0
          else Min (set (map (\<lambda>para. length (spec_tokens para)) (get_paragraphs contents False))))
   \<and> count_words ''Hello world.\<newline>\<newline>One two three four.'' = Inr 2
   \<and> sum_list (map (\<lambda>para. length (spec_tokens para))
        (get_paragraphs ''Hello world.\<newline>\<newline>One two three four.'' False)) = 6"
proof -
  have "count_words ''Hello world.\<newline>\<newline>One two three four.'' = Inr 2"
    by (simp add: count_words_def hello_paragraphs para_word_count_def NEWLINE_def SPACE_def
        py_isalnum_char_def py_isspace_char_def)
  moreover have "sum_list (map (\<lambda>para. length (spec_tokens para))
        (get_paragraphs ''Hello world.\<newline>\<newline>One two three four.'' False)) = 6"
    by (simp add: hello_paragraphs spec_tokens_def py_isalnum_char_def py_isspace_char_def)
  ultimately show ?thesis using count_words_min by blast
qed

lemma wraps_paragraphs:
  "get_paragraphs ''This is one\<newline>paragraph that\<newline>wraps.\<newline>\<newline>Second one.'' False
     = [''This is one paragraph that wraps.\<newline>\<newline>'', ''Second one.'']"
  by (simp add: eval_defs)

text \<open>
  C4: the text \<open>This is one / paragraph that / wraps.\<close>, an empty line, \<open>Second one.\<close>
  has exactly 2 paragraphs, and for \<open>count_words\<close> its first paragraph is the single run
  \<open>This is one paragraph that wraps.\<close> of six words: the single newlines have become
  spaces.
\<close>

theorem wrapped_paragraph_is_one_run:
  "count_paragraphs ''This is one\<newline>paragraph that\<newline>wraps.\<newline>\<newline>Second one.'' = 2
   \<and> get_paragraphs ''This is one\<newline>paragraph that\<newline>wraps.\<newline>\<newline>Second one.'' False
       = [''This is one paragraph that wraps.\<newline>\<newline>'', ''Second one.'']
   \<and> para_word_count
        (hd (get_paragraphs ''This is one\<newline>paragraph that\<newline>wraps.\<newline>\<newline>Second one.'' False))
       = 6
   \<and> spec_tokens ''This is one paragraph that wraps.\<newline>\<newline>''
       = [''This'', ''is'', ''one'', ''paragraph'', ''that'', ''wraps'']"
proof -
  have "count_paragraphs ''This is one\<newline>paragraph that\<newline>wraps.\<newline>\<newline>Second one.'' = 2"
    by (simp add: count_paragraphs_def eval_defs)
  moreover have "para_word_count ''This is one paragraph that wraps.\<newline>\<newline>'' = 6"
    by (simp add: para_word_count_def NEWLINE_def SPACE_def py_isalnum_char_def py_isspace_char_def)
  moreover have "spec_tokens ''This is one paragraph that wraps.\<newline>\<newline>''
       = [''This'', ''is'', ''one'', ''paragraph'', ''that'', ''wraps'']"
    by (simp add: spec_tokens_def py_isalnum_char_def py_isspace_char_def)
  ultimately show ?thesis by (simp add: wraps_paragraphs del: py_split.simps)
qed

section \<open>The newline normalisation of the segmenter\<close>

lemma sentinel_length: "length GATORGRADER_REPLACEMENT = 23"
  by (simp add: GATORGRADER_REPLACEMENT_def)

lemma sentinel_chars:
  "CHR 0x0A \<notin> set GATORGRADER_REPLACEMENT" "CHR '' '' \<notin> set GATORGRADER_REPLACEMENT"
  by (simp_all add: GATORGRADER_REPLACEMENT_def)

lemma sentinel_no_border_index:
  "list_all (\<lambda>k. \<not> prefix (drop k GATORGRADER_REPLACEMENT) GATORGRADER_REPLACEMENT) [1..<23]"
  by (simp add: GATORGRADER_REPLACEMENT_def upt_rec)

lemma sentinel_unbordered:
  assumes "GATORGRADER_REPLACEMENT = p @ t" "p \<noteq> []" "t \<noteq> []"
  shows "\<not> prefix t GATORGRADER_REPLACEMENT"
proof -
  have len: "length p + length t = 23"
    using assms(1) sentinel_length by (metis length_append)
  with assms(2,3) have "length p \<in> set [1..<23]"
    by (cases p; cases t) auto
  then have "\<not> prefix (drop (length p) GATORGRADER_REPLACEMENT) GATORGRADER_REPLACEMENT"
    using sentinel_no_border_index unfolding list_all_iff by blast
  moreover have "drop (length p) GATORGRADER_REPLACEMENT = t"
    by (simp add: assms(1))
  ultimately show ?thesis by simp
qed


lemma py_replace_at_match:
  "old \<noteq> [] \<Longrightarrow> py_replace old new (old @ z) = new @ py_replace old new z"
  by (cases old) simp_all

lemma py_replace_no_match:
  "old \<noteq> [] \<Longrightarrow> \<not> prefix old (c # z) \<Longrightarrow> py_replace old new (c # z) = c # py_replace old new z"
  by simp

lemma replace_double_newline_step:
  "py_replace DOUBLE_NEWLINE GATORGRADER_REPLACEMENT (CHR 0x0A # CHR 0x0A # y)
     = GATORGRADER_REPLACEMENT @ py_replace DOUBLE_NEWLINE GATORGRADER_REPLACEMENT y"
  "\<not> prefix DOUBLE_NEWLINE (c # y) \<Longrightarrow>
     py_replace DOUBLE_NEWLINE GATORGRADER_REPLACEMENT (c # y)
       = c # py_replace DOUBLE_NEWLINE GATORGRADER_REPLACEMENT y"
proof -
  have "DOUBLE_NEWLINE \<noteq> []" by (simp add: DOUBLE_NEWLINE_def NEWLINE_def)
  from py_replace_at_match [OF this, of GATORGRADER_REPLACEMENT y]
  show "py_replace DOUBLE_NEWLINE GATORGRADER_REPLACEMENT (CHR 0x0A # CHR 0x0A # y)
     = GATORGRADER_REPLACEMENT @ py_replace DOUBLE_NEWLINE GATORGRADER_REPLACEMENT y"
    by (simp add: DOUBLE_NEWLINE_def NEWLINE_def)
next
  assume "\<not> prefix DOUBLE_NEWLINE (c # y)"
  moreover have "DOUBLE_NEWLINE \<noteq> []" by (simp add: DOUBLE_NEWLINE_def NEWLINE_def)
  ultimately show "py_replace DOUBLE_NEWLINE GATORGRADER_REPLACEMENT (c # y)
       = c # py_replace DOUBLE_NEWLINE GATORGRADER_REPLACEMENT y"
    by (rule py_replace_no_match [rotated])
qed

lemma restore_sentinel_step:
  "py_replace GATORGRADER_REPLACEMENT DOUBLE_NEWLINE (GATORGRADER_REPLACEMENT @ z)
     = CHR 0x0A # CHR 0x0A # py_replace GATORGRADER_REPLACEMENT DOUBLE_NEWLINE z"
  "\<not> prefix GATORGRADER_REPLACEMENT (c # z) \<Longrightarrow>
     py_replace GATORGRADER_REPLACEMENT DOUBLE_NEWLINE (c # z)
       = c # py_replace GATORGRADER_REPLACEMENT DOUBLE_NEWLINE z"
proof -
  have ne: "GATORGRADER_REPLACEMENT \<noteq> []"
    using sentinel_length by auto
  from py_replace_at_match [OF ne, of DOUBLE_NEWLINE z]
  show "py_replace GATORGRADER_REPLACEMENT DOUBLE_NEWLINE (GATORGRADER_REPLACEMENT @ z)
     = CHR 0x0A # CHR 0x0A # py_replace GATORGRADER_REPLACEMENT DOUBLE_NEWLINE z"
    by (simp add: DOUBLE_NEWLINE_def NEWLINE_def)
  assume "\<not> prefix GATORGRADER_REPLACEMENT (c # z)"
  with ne show "py_replace GATORGRADER_REPLACEMENT DOUBLE_NEWLINE (c # z)
       = c # py_replace GATORGRADER_REPLACEMENT DOUBLE_NEWLINE z"
    by (rule py_replace_no_match)
qed

text \<open>
  After the first two replacements, a suffix of the sentinel can start the text only where
  it started the input, unless the whole sentinel stands for a double newline there.
\<close>

lemma sentinel_suffix_in_input:
  assumes "GATORGRADER_REPLACEMENT = p @ t" and "t \<noteq> []"
      and "\<not> (p = [] \<and> prefix DOUBLE_NEWLINE y)"
      and "prefix t (map (\<lambda>c. if c = CHR 0x0A then CHR '' '' else c)
             (py_replace DOUBLE_NEWLINE GATORGRADER_REPLACEMENT y))"
  shows "prefix t y"
  using assms
proof (induction y arbitrary: p t)
  case Nil
  then show ?case by (simp add: DOUBLE_NEWLINE_def NEWLINE_def)
next
  case (Cons c y)
  let ?f = "\<lambda>c. if c = CHR 0x0A then CHR '' '' else c"
  let ?R = "py_replace DOUBLE_NEWLINE GATORGRADER_REPLACEMENT"
  have "set t \<subseteq> set GATORGRADER_REPLACEMENT"
    unfolding Cons.prems(1) by simp
  then have nosp: "CHR '' '' \<notin> set t"
    using sentinel_chars(2) by blast
  show ?case
  proof (cases "prefix DOUBLE_NEWLINE (c # y)")
    case True
    then obtain y' where y': "c # y = CHR 0x0A # CHR 0x0A # y'"
      by (auto simp: DOUBLE_NEWLINE_def NEWLINE_def prefix_def)
    from True Cons.prems(3) have p: "p \<noteq> []" by simp
    have "map ?f GATORGRADER_REPLACEMENT = GATORGRADER_REPLACEMENT"
      by (simp add: GATORGRADER_REPLACEMENT_def)
    then have "map ?f (?R (c # y)) = GATORGRADER_REPLACEMENT @ map ?f (?R y')"
      unfolding y' replace_double_newline_step(1) by simp
    with Cons.prems(4) have "prefix t (GATORGRADER_REPLACEMENT @ map ?f (?R y'))" by simp
    moreover have "length t \<le> length GATORGRADER_REPLACEMENT"
      using Cons.prems(1) by (metis length_append le_add2)
    ultimately have "prefix t GATORGRADER_REPLACEMENT"
      by (auto simp: prefix_append)
    with sentinel_unbordered [OF Cons.prems(1) p Cons.prems(2)] show ?thesis by simp
  next
    case False
    obtain a t' where t: "t = a # t'" using Cons.prems(2) by (cases t) auto
    have "prefix (a # t') (?f c # map ?f (?R y))"
      using Cons.prems(4) replace_double_newline_step(2) [OF False] t by simp
    then have a: "?f c = a" and rest: "prefix t' (map ?f (?R y))" by simp_all
    from a nosp t have ca: "c = a" by (auto split: if_splits)
    show ?thesis
    proof (cases "t' = []")
      case True
      with ca t show ?thesis by simp
    next
      case False
      have "GATORGRADER_REPLACEMENT = (p @ [a]) @ t'" using Cons.prems(1) t by simp
      from Cons.IH [OF this False _ rest] have "prefix t' y" by simp
      with ca t show ?thesis by simp
    qed
  qed
qed


lemma not_sublist_Cons:
  "\<not> sublist t (c # y) \<Longrightarrow> \<not> prefix t (c # y) \<and> \<not> sublist t y"
  by (simp add: sublist_Cons_right)

lemma restore_after_join_step:
  assumes "\<not> prefix DOUBLE_NEWLINE (c # y)" and "\<not> prefix GATORGRADER_REPLACEMENT (c # y)"
  shows "py_replace GATORGRADER_REPLACEMENT DOUBLE_NEWLINE
           (map (\<lambda>c. if c = CHR 0x0A then CHR '' '' else c)
              (py_replace DOUBLE_NEWLINE GATORGRADER_REPLACEMENT (c # y)))
         = (if c = CHR 0x0A then CHR '' '' else c) #
           py_replace GATORGRADER_REPLACEMENT DOUBLE_NEWLINE
             (map (\<lambda>c. if c = CHR 0x0A then CHR '' '' else c)
                (py_replace DOUBLE_NEWLINE GATORGRADER_REPLACEMENT y))"
proof -
  let ?f = "\<lambda>c. if c = CHR 0x0A then CHR '' '' else c"
  let ?R = "py_replace DOUBLE_NEWLINE GATORGRADER_REPLACEMENT"
  have ne: "GATORGRADER_REPLACEMENT \<noteq> []" using sentinel_length by auto
  have "\<not> prefix GATORGRADER_REPLACEMENT (map ?f (?R (c # y)))"
    using sentinel_suffix_in_input [of "[]" GATORGRADER_REPLACEMENT "c # y"] assms ne
    by auto
  then have "\<not> prefix GATORGRADER_REPLACEMENT (?f c # map ?f (?R y))"
    unfolding replace_double_newline_step(2) [OF assms(1)] by simp
  from restore_sentinel_step(2) [OF this] show ?thesis
    unfolding replace_double_newline_step(2) [OF assms(1)] by simp
qed

lemma newline_sequence_join:
  assumes "\<not> sublist GATORGRADER_REPLACEMENT x"
  shows "py_replace GATORGRADER_REPLACEMENT DOUBLE_NEWLINE
           (py_replace NEWLINE SPACE (py_replace DOUBLE_NEWLINE GATORGRADER_REPLACEMENT x))
         = join_single_newlines x"
  using assms unfolding replace_newline_by_space
proof (induction x rule: join_single_newlines.induct)
  case 1
  show ?case by (simp add: DOUBLE_NEWLINE_def NEWLINE_def GATORGRADER_REPLACEMENT_def)
next
  case (2 c)
  have "\<not> prefix DOUBLE_NEWLINE [c]" by (simp add: DOUBLE_NEWLINE_def NEWLINE_def)
  moreover have "\<not> prefix GATORGRADER_REPLACEMENT [c]"
    using not_sublist_Cons [OF 2] by simp
  ultimately show ?case
    using restore_after_join_step [of c "[]"]
    by (simp add: DOUBLE_NEWLINE_def NEWLINE_def GATORGRADER_REPLACEMENT_def)
next
  case (3 c d cs)
  let ?f = "\<lambda>c. if c = CHR 0x0A then CHR '' '' else c"
  have nopre: "\<not> prefix GATORGRADER_REPLACEMENT (c # d # cs)"
    and tail: "\<not> sublist GATORGRADER_REPLACEMENT (d # cs)"
    using not_sublist_Cons [OF "3.prems"] by simp_all
  show ?case
  proof (cases "c = CHR 0x0A \<and> d = CHR 0x0A")
    case True
    have "\<not> sublist GATORGRADER_REPLACEMENT cs"
      using not_sublist_Cons [OF tail] by simp
    from "3.IH"(1) [OF True this]
    have ih: "py_replace GATORGRADER_REPLACEMENT DOUBLE_NEWLINE
           (map ?f (py_replace DOUBLE_NEWLINE GATORGRADER_REPLACEMENT cs))
         = join_single_newlines cs" .
    have m: "map ?f GATORGRADER_REPLACEMENT = GATORGRADER_REPLACEMENT"
      by (simp add: GATORGRADER_REPLACEMENT_def)
    have "py_replace DOUBLE_NEWLINE GATORGRADER_REPLACEMENT (c # d # cs)
          = GATORGRADER_REPLACEMENT @ py_replace DOUBLE_NEWLINE GATORGRADER_REPLACEMENT cs"
      using True replace_double_newline_step(1) [of cs] by simp
    then have "map ?f (py_replace DOUBLE_NEWLINE GATORGRADER_REPLACEMENT (c # d # cs))
          = GATORGRADER_REPLACEMENT @ map ?f (py_replace DOUBLE_NEWLINE GATORGRADER_REPLACEMENT cs)"
      using m by (simp only: map_append)
    then have "py_replace GATORGRADER_REPLACEMENT DOUBLE_NEWLINE
           (map ?f (py_replace DOUBLE_NEWLINE GATORGRADER_REPLACEMENT (c # d # cs)))
          = CHR 0x0A # CHR 0x0A # join_single_newlines cs"
      by (simp only: restore_sentinel_step(1) ih)
    with True show ?thesis by simp
  next
    case False
    then have nn: "\<not> prefix DOUBLE_NEWLINE (c # d # cs)"
      by (auto simp: DOUBLE_NEWLINE_def NEWLINE_def)
    have ih: "py_replace GATORGRADER_REPLACEMENT DOUBLE_NEWLINE
           (map ?f (py_replace DOUBLE_NEWLINE GATORGRADER_REPLACEMENT (d # cs)))
         = join_single_newlines (d # cs)"
    proof (cases "c = CHR 0x0A")
      case True
      from "3.IH"(2) [OF False True tail] show ?thesis .
    next
      case c: False
      from "3.IH"(3) [OF False c tail] show ?thesis .
    qed
    show ?thesis
      unfolding restore_after_join_step [OF nn nopre] ih using False by simp
  qed
qed

text \<open>
  C1, as stated, fails: the sentinel can occur in the input.  In the text
  \<open>aGATORGRADER_REPLACEMENTb\<close>, which has no newline at all, the three replacements turn
  the sentinel into a double newline, and the segmenter yields two candidates.
\<close>

theorem sentinel_in_input_becomes_break:
  "py_replace GATORGRADER_REPLACEMENT DOUBLE_NEWLINE
     (py_replace NEWLINE SPACE
        (py_replace DOUBLE_NEWLINE GATORGRADER_REPLACEMENT ''aGATORGRADER_REPLACEMENTb''))
     \<noteq> join_single_newlines ''aGATORGRADER_REPLACEMENTb''
   \<and> join_single_newlines ''aGATORGRADER_REPLACEMENTb'' = ''aGATORGRADER_REPLACEMENTb''
   \<and> get_paragraphs ''aGATORGRADER_REPLACEMENTb'' False = [''a\<newline>\<newline>'', ''b'']"
  by (simp add: eval_defs)

text \<open>
  C1, amended: for every text in which the sentinel does not occur (the text after the
  removal of spaces, when \<open>blank_replace\<close> is set), the three replacements of
  \<open>get_paragraphs\<close> produce exactly that text with every double newline kept and every
  remaining single newline replaced by a space, and the candidates are the matches of the
  pattern in it.
\<close>

theorem newline_normalisation_without_sentinel:
  assumes "text = (if blank_replace then py_replace SPACE NOTHING contents else contents)"
      and "\<not> sublist GATORGRADER_REPLACEMENT text"
  shows "py_replace GATORGRADER_REPLACEMENT DOUBLE_NEWLINE
           (py_replace NEWLINE SPACE (py_replace DOUBLE_NEWLINE GATORGRADER_REPLACEMENT text))
         = join_single_newlines text
       \<and> get_paragraphs contents blank_replace
         = filter is_paragraph (re_findall PARAGRAH_RE (join_single_newlines text))"
proof -
  note j = newline_sequence_join [OF assms(2)]
  have "get_paragraphs contents blank_replace
         = filter is_paragraph (re_findall PARAGRAH_RE
             (py_replace GATORGRADER_REPLACEMENT DOUBLE_NEWLINE
               (py_replace NEWLINE SPACE (py_replace DOUBLE_NEWLINE GATORGRADER_REPLACEMENT text))))"
    unfolding get_paragraphs_def Let_def assms(1) by simp
  with j show ?thesis by simp
qed

theorem newline_normalisation_without_sentinel_witness:
  "py_replace GATORGRADER_REPLACEMENT DOUBLE_NEWLINE
     (py_replace NEWLINE SPACE
        (py_replace DOUBLE_NEWLINE GATORGRADER_REPLACEMENT ''one\<newline>two\<newline>\<newline>\<newline>three''))
     = ''one two\<newline>\<newline> three''
   \<and> get_paragraphs ''one\<newline>two\<newline>\<newline>\<newline>three'' False
     = filter is_paragraph (re_findall PARAGRAH_RE ''one two\<newline>\<newline> three'')"
  using newline_normalisation_without_sentinel
          [of "''one\<newline>two\<newline>\<newline>\<newline>three''" False "''one\<newline>two\<newline>\<newline>\<newline>three''"]
  by (simp add: sublist_Cons_right GATORGRADER_REPLACEMENT_def)

section \<open>The line filter\<close>









section \<open>A single isolated paragraph\<close>

lemma join_without_double_newline:
  "\<not> sublist DOUBLE_NEWLINE x \<Longrightarrow>
     join_single_newlines x = map (\<lambda>c. if c = CHR 0x0A then CHR '' '' else c) x"
proof (induction x rule: join_single_newlines.induct)
  case 1
  show ?case by simp
next
  case (2 c)
  show ?case by simp
next
  case (3 c d cs)
  from "3.prems" have np: "\<not> prefix DOUBLE_NEWLINE (c # d # cs)"
    and tail: "\<not> sublist DOUBLE_NEWLINE (d # cs)"
    by (simp_all add: sublist_Cons_right)
  from np have nn: "\<not> (c = CHR 0x0A \<and> d = CHR 0x0A)"
    by (auto simp: DOUBLE_NEWLINE_def NEWLINE_def)
  from "3.IH"(2,3) [OF nn _ tail] have "join_single_newlines (d # cs)
      = map (\<lambda>c. if c = CHR 0x0A then CHR '' '' else c) (d # cs)"
    by blast
  with nn show ?case by auto
qed

lemma sublist_newline_iff: "sublist NEWLINE x = (CHR 0x0A \<in> set x)"
  by (induction x) (auto simp: sublist_Cons_right NEWLINE_def)

lemma re_match_plus_dot_then:
  "re_match (Seq (PlusLazy Dot) r) [] = []"
  "re_match (Seq (PlusLazy Dot) r) (c # cs) =
     (if c = CHR 0x0A then [] else re_match r cs @ re_match (Seq (PlusLazy Dot) r) cs)"
  by simp_all

lemma first_alternative_no_newline:
  "CHR 0x0A \<notin> set t \<Longrightarrow>
     re_match (Seq (PlusLazy Dot) (Seq (Lit CHR 0x0A) (Lit CHR 0x0A))) t = []"
proof (induction t)
  case Nil
  show ?case by (rule re_match_plus_dot_then(1))
next
  case (Cons c cs)
  from Cons.prems have c: "c \<noteq> CHR 0x0A" and cs: "CHR 0x0A \<notin> set cs" by auto
  have r: "re_match (Seq (Lit CHR 0x0A) (Lit CHR 0x0A)) cs = []"
    using cs by (cases cs) auto
  show ?case
    unfolding re_match_plus_dot_then(2) r Cons.IH [OF cs] using c by simp
qed

lemma second_alternative_no_newline:
  "CHR 0x0A \<notin> set t \<Longrightarrow> t \<noteq> [] \<Longrightarrow> re_match (Seq (PlusLazy Dot) Dollar) t = [[]]"
proof (induction t)
  case Nil
  then show ?case by simp
next
  case (Cons c cs)
  from Cons.prems have c: "c \<noteq> CHR 0x0A" and cs: "CHR 0x0A \<notin> set cs" by auto
  show ?case
  proof (cases "cs = []")
    case True
    have "re_match Dollar [] = [[]]" by simp
    then show ?thesis
      unfolding True re_match_plus_dot_then using c by simp
  next
    case False
    have a: "re_match (Seq (PlusLazy Dot) Dollar) cs = [[]]"
      using Cons.IH [OF cs False] .
    have b: "re_match Dollar cs = []"
      using cs False by auto
    show ?thesis
      unfolding re_match_plus_dot_then(2) a b using c by simp
  qed
qed

lemma findall_no_newline:
  assumes "CHR 0x0A \<notin> set t" and "t \<noteq> []"
  shows "re_findall PARAGRAH_RE t = [t]"
proof -
  have "re_match PARAGRAH_RE t = [] @ [[]]"
    unfolding PARAGRAH_RE_def re_match.simps(4)
      first_alternative_no_newline [OF assms(1)] second_alternative_no_newline [OF assms] ..
  then have m: "re_match PARAGRAH_RE t = [[]]" by (simp only: append_Nil)
  have e: "re_match PARAGRAH_RE [] = []" by (simp add: PARAGRAH_RE_def)
  obtain c cs where t: "t = c # cs" using assms(2) by (cases t) auto
  show ?thesis
    unfolding t re_findall.simps(2) m [unfolded t] list.case
    by (simp add: e del: re_match.simps)
qed

lemma isspace_nl_to_space:
  "py_isspace_char (if c = CHR 0x0A then CHR '' '' else c) = py_isspace_char c"
  by (simp add: py_isspace_char_def)

lemma strip_nl_to_space:
  "py_strip (map (\<lambda>c. if c = CHR 0x0A then CHR '' '' else c) s)
     = map (\<lambda>c. if c = CHR 0x0A then CHR '' '' else c) (py_strip s)"
proof -
  have dw: "dropWhile py_isspace_char (map (\<lambda>c. if c = CHR 0x0A then CHR '' '' else c) xs)
      = map (\<lambda>c. if c = CHR 0x0A then CHR '' '' else c) (dropWhile py_isspace_char xs)" for xs
    by (induction xs) (simp_all add: isspace_nl_to_space)
  show ?thesis
    by (simp add: py_strip_def dw rev_map)
qed

lemma prefix_nl_to_space:
  "CHR '' '' \<notin> set t \<Longrightarrow> CHR 0x0A \<notin> set t \<Longrightarrow>
     prefix t (map (\<lambda>c. if c = CHR 0x0A then CHR '' '' else c) y) = prefix t y"
proof (induction t arbitrary: y)
  case Nil
  show ?case by simp
next
  case (Cons a t)
  then show ?case by (cases y) auto
qed

lemma is_paragraph_nl_to_space:
  "is_paragraph (map (\<lambda>c. if c = CHR 0x0A then CHR '' '' else c) s) = is_paragraph s"
  by (simp add: is_paragraph_def Let_def strip_nl_to_space py_startswith_def
      prefix_nl_to_space SECTION_MARKER_def CODE_FENCE_MARKER_def)

text \<open>
  C7, as stated, fails: the text \<open>a\<close>, newline, \<open>b\<close> has no double newline and no
  marker, and its one candidate is \<open>a b\<close> in either mode; trimmed, the candidate is not
  the input trimmed, since the newline inside has become a space.
\<close>

theorem wrapped_single_paragraph_differs:
  "\<not> sublist DOUBLE_NEWLINE ''a\<newline>b''
   \<and> is_paragraph ''a\<newline>b''
   \<and> get_paragraphs ''a\<newline>b'' False = [''a b'']
   \<and> get_paragraphs ''a\<newline>b'' True = [''a b'']
   \<and> py_strip ''a b'' \<noteq> py_strip ''a\<newline>b''"
  by (simp add: eval_defs sublist_Cons_right)


text \<open>
  C7, amended: let the text be the content (after the removal of spaces, when
  \<open>blank_replace\<close> is set).  When the text is not empty, holds neither a double newline
  nor the sentinel, and does not start, once trimmed, with a header or code-fence marker,
  the segmenter yields exactly one candidate: the whole text with every newline replaced
  by a space.  Trimming it gives the trimmed text with its newlines replaced by spaces;
  when the text holds no newline, the candidate is the text and, trimmed, the text trimmed.
\<close>

theorem isolated_paragraph_single_candidate:
  assumes "text = (if blank_replace then py_replace SPACE NOTHING contents else contents)"
      and "text \<noteq> []"
      and "\<not> sublist DOUBLE_NEWLINE text"
      and "\<not> sublist GATORGRADER_REPLACEMENT text"
      and "is_paragraph text"
  shows "get_paragraphs contents blank_replace = [py_replace NEWLINE SPACE text]
       \<and> py_strip (py_replace NEWLINE SPACE text) = py_replace NEWLINE SPACE (py_strip text)
       \<and> (\<not> sublist NEWLINE text \<longrightarrow>
            get_paragraphs contents blank_replace = [text]
            \<and> py_strip (hd (get_paragraphs contents blank_replace)) = py_strip text)"
proof -
  let ?f = "\<lambda>c. if c = CHR 0x0A then CHR '' '' else c"
  have norm: "py_replace GATORGRADER_REPLACEMENT DOUBLE_NEWLINE
           (py_replace NEWLINE SPACE (py_replace DOUBLE_NEWLINE GATORGRADER_REPLACEMENT text))
         = map ?f text"
    using newline_sequence_join [OF assms(4)] join_without_double_newline [OF assms(3)] by simp
  have "CHR 0x0A \<notin> set (map ?f text)" by auto
  moreover have "map ?f text \<noteq> []" using assms(2) by simp
  ultimately have fa: "re_findall PARAGRAH_RE (map ?f text) = [map ?f text]"
    by (rule findall_no_newline)
  have "get_paragraphs contents blank_replace
         = filter is_paragraph (re_findall PARAGRAH_RE
             (py_replace GATORGRADER_REPLACEMENT DOUBLE_NEWLINE
               (py_replace NEWLINE SPACE (py_replace DOUBLE_NEWLINE GATORGRADER_REPLACEMENT text))))"
    unfolding get_paragraphs_def Let_def assms(1) by simp
  then have g: "get_paragraphs contents blank_replace = [map ?f text]"
    unfolding norm fa using assms(5) by (simp add: is_paragraph_nl_to_space)
  have id: "\<not> sublist NEWLINE text \<Longrightarrow> map ?f text = text"
    unfolding sublist_newline_iff by (induction "text") auto
  show ?thesis
    unfolding replace_newline_by_space g strip_nl_to_space using id by simp
qed


theorem isolated_paragraph_single_candidate_witness:
  "get_paragraphs ''  One line,\<newline>wrapped. '' False = [''  One line, wrapped. '']
   \<and> get_paragraphs ''  One line,\<newline>wrapped. '' True = [''Oneline, wrapped.'']
   \<and> get_paragraphs ''  Just one line. '' False = [''  Just one line. '']
   \<and> py_strip (hd (get_paragraphs ''  Just one line. '' False)) = ''Just one line.''"
  using isolated_paragraph_single_candidate
          [of "''  One line,\<newline>wrapped. ''" False "''  One line,\<newline>wrapped. ''"]
        isolated_paragraph_single_candidate
          [of "''Oneline,\<newline>wrapped.''" True "''  One line,\<newline>wrapped. ''"]
        isolated_paragraph_single_candidate
          [of "''  Just one line. ''" False "''  Just one line. ''"]
  by (simp add: sublist_Cons_right eval_defs)

section \<open>Counting a fragment\<close>

lemma occurs_at_0: "occurs_at f s 0 = prefix f s"
proof
  assume "occurs_at f s 0"
  then have "take (length f) s = f" by (simp add: occurs_at_def)
  then show "prefix f s" by (metis take_is_prefix)
next
  assume "prefix f s"
  then obtain r where "s = f @ r" by (auto simp: prefix_def)
  then show "occurs_at f s 0" by (simp add: occurs_at_def)
qed

lemma occurs_at_shift_up:
  "k \<le> length s \<Longrightarrow> occurs_at f (drop k s) p \<Longrightarrow> occurs_at f s (p + k)"
  by (auto simp: occurs_at_def)

lemma occurs_at_shift_down:
  "k \<le> p \<Longrightarrow> occurs_at f s p \<Longrightarrow> occurs_at f (drop k s) (p - k)"
  by (auto simp: occurs_at_def)

lemma nonoverlapping_shift_up:
  assumes "k \<le> length s" and "nonoverlapping_occurrences f (drop k s) ps"
  shows "nonoverlapping_occurrences f s (map (\<lambda>p. p + k) ps)"
proof -
  from assms have "list_all (occurs_at f s) (map (\<lambda>p. p + k) ps)"
    by (auto simp: nonoverlapping_occurrences_def list_all_iff intro: occurs_at_shift_up)
  moreover from assms(2)
  have "sorted_wrt (\<lambda>p q. p < q \<and> p + length f \<le> q) (map (\<lambda>p. p + k) ps)"
    by (simp add: nonoverlapping_occurrences_def sorted_wrt_map)
  ultimately show ?thesis by (simp add: nonoverlapping_occurrences_def)
qed

lemma nonoverlapping_shift_down:
  assumes "\<forall>p \<in> set ps. k \<le> p" and "nonoverlapping_occurrences f s ps"
  shows "nonoverlapping_occurrences f (drop k s) (map (\<lambda>p. p - k) ps)"
proof -
  from assms have "list_all (occurs_at f (drop k s)) (map (\<lambda>p. p - k) ps)"
    by (auto simp: nonoverlapping_occurrences_def list_all_iff intro: occurs_at_shift_down)
  moreover have "sorted_wrt (\<lambda>p q. p - k < q - k \<and> p - k + length f \<le> q - k) ps"
  proof (rule sorted_wrt_mono_rel)
    show "sorted_wrt (\<lambda>p q. p < q \<and> p + length f \<le> q) ps"
      using assms(2) by (simp add: nonoverlapping_occurrences_def)
  next
    fix p q
    assume "p \<in> set ps" "q \<in> set ps" "p < q \<and> p + length f \<le> q"
    with assms(1) show "p - k < q - k \<and> p - k + length f \<le> q - k"
      by (auto dest!: bspec)
  qed
  ultimately show ?thesis by (simp add: nonoverlapping_occurrences_def sorted_wrt_map)
qed

lemma nonoverlapping_Cons:
  "nonoverlapping_occurrences f s (p # ps) =
     (occurs_at f s p \<and> (\<forall>q \<in> set ps. p < q \<and> p + length f \<le> q)
      \<and> nonoverlapping_occurrences f s ps)"
  by (auto simp: nonoverlapping_occurrences_def)

lemma nonoverlapping_Nil: "nonoverlapping_occurrences f s []"
  by (simp add: nonoverlapping_occurrences_def)

lemma count_attained:
  "\<exists>ps. nonoverlapping_occurrences f s ps \<and> length ps = py_count s f"
proof (induction s f rule: py_count.induct)
  case (1 sub)
  show ?case
  proof (cases "sub = []")
    case True
    have "nonoverlapping_occurrences sub [] [0]"
      using True by (simp add: nonoverlapping_Cons nonoverlapping_Nil occurs_at_def)
    then show ?thesis using True by (intro exI [of _ "[0]"]) simp
  next
    case False
    then show ?thesis by (intro exI [of _ "[]"]) (simp add: nonoverlapping_Nil)
  qed
next
  case (2 c cs sub)
  show ?case
  proof (cases "sub = []")
    case True
    from "2.IH"(1) [OF True] obtain ps
      where ps: "nonoverlapping_occurrences sub cs ps" "length ps = py_count cs sub" by blast
    have "nonoverlapping_occurrences sub (c # cs) (map (\<lambda>p. p + 1) ps)"
      using nonoverlapping_shift_up [of 1 "c # cs" sub ps] ps(1) by simp
    then have "nonoverlapping_occurrences sub (c # cs) (0 # map (\<lambda>p. p + 1) ps)"
      using True by (auto simp: nonoverlapping_Cons occurs_at_def)
    then show ?thesis
      using True ps(2) by (intro exI [of _ "0 # map (\<lambda>p. p + 1) ps"]) simp
  next
    case False
    show ?thesis
    proof (cases "prefix sub (c # cs)")
      case True
      from "2.IH"(2) [OF False True] obtain ps
        where ps: "nonoverlapping_occurrences sub (drop (length sub) (c # cs)) ps"
                  "length ps = py_count (drop (length sub) (c # cs)) sub" by blast
      have le: "length sub \<le> length (c # cs)" using True by (rule prefix_length_le)
      have "nonoverlapping_occurrences sub (c # cs) (map (\<lambda>p. p + length sub) ps)"
        using nonoverlapping_shift_up [OF le ps(1)] .
      moreover have "0 < length sub" using False by simp
      ultimately have "nonoverlapping_occurrences sub (c # cs)
                         (0 # map (\<lambda>p. p + length sub) ps)"
        using True by (auto simp: nonoverlapping_Cons occurs_at_0)
      then show ?thesis
        using False True ps(2)
        by (intro exI [of _ "0 # map (\<lambda>p. p + length sub) ps"]) simp
    next
      case np: False
      from "2.IH"(3) [OF False np] obtain ps
        where ps: "nonoverlapping_occurrences sub cs ps" "length ps = py_count cs sub" by blast
      have "nonoverlapping_occurrences sub (c # cs) (map (\<lambda>p. p + 1) ps)"
        using nonoverlapping_shift_up [of 1 "c # cs" sub ps] ps(1) by simp
      then show ?thesis
        using False np ps(2) by (intro exI [of _ "map (\<lambda>p. p + 1) ps"]) simp
    qed
  qed
qed

lemma count_bounds:
  "nonoverlapping_occurrences f s ps \<Longrightarrow> length ps \<le> py_count s f"
proof (induction s f arbitrary: ps rule: py_count.induct)
  case (1 sub)
  show ?case
  proof (cases ps)
    case Nil
    then show ?thesis by simp
  next
    case (Cons p ps')
    with "1.prems" have p: "occurs_at sub [] p" and rest: "\<forall>q \<in> set ps'. p < q \<and> occurs_at sub [] q"
      by (auto simp: nonoverlapping_Cons nonoverlapping_occurrences_def list_all_iff)
    from p have "sub = []" by (simp add: occurs_at_def)
    moreover from rest have "ps' = []"
      by (cases ps') (auto simp: occurs_at_def)
    ultimately show ?thesis using Cons by simp
  qed
next
  case (2 c cs sub)
  show ?case
  proof (cases ps)
    case Nil
    then show ?thesis by simp
  next
    case (Cons p ps')
    with "2.prems" have p: "occurs_at sub (c # cs) p"
      and after: "\<forall>q \<in> set ps'. p < q \<and> p + length sub \<le> q"
      and rest: "nonoverlapping_occurrences sub (c # cs) ps'"
      by (simp_all add: nonoverlapping_Cons)
    show ?thesis
    proof (cases "sub = []")
      case True
      from after have "\<forall>q \<in> set ps'. 1 \<le> q" by auto
      from nonoverlapping_shift_down [OF this rest]
      have "nonoverlapping_occurrences sub cs (map (\<lambda>p. p - 1) ps')" by simp
      from "2.IH"(1) [OF True this] show ?thesis using True Cons by simp
    next
      case False
      show ?thesis
      proof (cases "prefix sub (c # cs)")
        case True
        from after have "\<forall>q \<in> set ps'. length sub \<le> q" by auto
        from nonoverlapping_shift_down [OF this rest]
        have "nonoverlapping_occurrences sub (drop (length sub) (c # cs))
                (map (\<lambda>p. p - length sub) ps')" .
        from "2.IH"(2) [OF False True this] show ?thesis using False True Cons by simp
      next
        case np: False
        have "q \<noteq> 0" if "q \<in> set ps" for q
        proof
          assume "q = 0"
          with that "2.prems" have "occurs_at sub (c # cs) 0"
            by (auto simp: nonoverlapping_occurrences_def list_all_iff)
          with np show False by (simp add: occurs_at_0)
        qed
        then have "\<forall>q \<in> set ps. 1 \<le> q" by (auto simp: Suc_le_eq)
        from nonoverlapping_shift_down [OF this "2.prems"]
        have "nonoverlapping_occurrences sub cs (map (\<lambda>p. p - 1) ps)" by simp
        from "2.IH"(3) [OF False np this] show ?thesis using False np by simp
      qed
    qed
  qed
qed

text \<open>
  C9: \<open>count_specified_fragment\<close> returns the number of non-overlapping occurrences of
  the fragment in the contents: some family of non-overlapping occurrences has that many
  members and none has more.  Counting \<open>aa\<close> in \<open>aaa\<close> gives 1 and in \<open>aaaa\<close> gives 2.
\<close>

theorem count_specified_fragment_nonoverlapping:
  "(\<exists>ps. nonoverlapping_occurrences fragment contents ps
         \<and> length ps = count_specified_fragment contents fragment)
   \<and> (\<forall>ps. nonoverlapping_occurrences fragment contents ps
         \<longrightarrow> length ps \<le> count_specified_fragment contents fragment)
   \<and> count_specified_fragment ''aaa'' ''aa'' = 1
   \<and> count_specified_fragment ''aaaa'' ''aa'' = 2"
  unfolding count_specified_fragment_def
  using count_attained [of fragment contents] count_bounds [of fragment contents]
  by simp

theorem count_specified_fragment_nonoverlapping_witness:
  "nonoverlapping_occurrences ''aa'' ''aaaa'' [0, 2]
   \<and> length [0, 2 :: nat] \<le> count_specified_fragment ''aaaa'' ''aa''
   \<and> count_specified_fragment ''aaaa'' ''aa'' = 2"
proof -
  have occ: "nonoverlapping_occurrences ''aa'' ''aaaa'' [0, 2]"
    by (simp add: nonoverlapping_occurrences_def occurs_at_def)
  from count_specified_fragment_nonoverlapping [of "''aa''" "''aaaa''"]
  have "nonoverlapping_occurrences ''aa'' ''aaaa'' [0, 2]
          \<longrightarrow> length [0, 2 :: nat] \<le> count_specified_fragment ''aaaa'' ''aa''"
    and "count_specified_fragment ''aaaa'' ''aa'' = 2"
    by blast+
  with occ show ?thesis by blast
qed

section \<open>Results on every string\<close>


















end
